theory Spec2Isabelle
  imports
    Main
    "HOL-Library.Monad_Syntax"
    "HOL-Library.Sublist"
    "HOL-Library.Extended_Nat"
    "HOL-Library.List_Lexorder"
begin

section \<open>Python values\<close>

text \<open>
  A Python \<^verbatim>\<open>str\<close> holding a word is a list of letters; the solver only compares
  letters for equality, so the letter type is left polymorphic. A feedback string is a
  \<^typ>\<open>string\<close> over the ASCII digits. A computation that raises (the only exception
  the solver core can raise is \<^verbatim>\<open>IndexError\<close>) returns \<^const>\<open>None\<close>.
\<close>

definition getitem :: "'a list \<Rightarrow> nat \<Rightarrow> 'a option" where
  "getitem xs i = (if i < length xs then Some (xs ! i) else None)"

definition dict_get :: "('k \<rightharpoonup> 'v) \<Rightarrow> 'k \<Rightarrow> 'v \<Rightarrow> 'v" where
  "dict_get d k dflt = (case d k of None \<Rightarrow> dflt | Some v \<Rightarrow> v)"

definition Counter :: "'a list \<Rightarrow> ('a \<rightharpoonup> nat)" where
  "Counter xs = (\<lambda>c. if c \<in> set xs then Some (count_list xs c) else None)"

definition range5 :: "nat list" where
  "range5 = [0, 1, 2, 3, 4]"

section \<open>filter_words\<close>

fun required_counts_loop ::
  "string \<Rightarrow> (nat \<times> 'a) list \<Rightarrow> ('a \<rightharpoonup> nat) \<Rightarrow> ('a \<rightharpoonup> nat) option" where
  "required_counts_loop feedback [] required_counts = Some required_counts"
| "required_counts_loop feedback ((i, ch) # rest) required_counts = do {
     f \<leftarrow> getitem feedback i;
     required_counts_loop feedback rest
       (if f = CHR ''1'' \<or> f = CHR ''2''
        then required_counts(ch \<mapsto> dict_get required_counts ch 0 + 1)
        else required_counts)
   }"

fun check_positions :: "'a list \<Rightarrow> 'a list \<Rightarrow> string \<Rightarrow> nat list \<Rightarrow> bool option" where
  "check_positions word guess feedback [] = Some True"
| "check_positions word guess feedback (i # rest) = do {
     f \<leftarrow> getitem feedback i;
     if f = CHR ''2'' then do {
       w \<leftarrow> getitem word i;
       g \<leftarrow> getitem guess i;
       if w \<noteq> g then Some False else check_positions word guess feedback rest
     } else if f = CHR ''1'' then do {
       w \<leftarrow> getitem word i;
       g \<leftarrow> getitem guess i;
       if w = g then Some False else check_positions word guess feedback rest
     } else check_positions word guess feedback rest
   }"

fun check_presence :: "'a list \<Rightarrow> 'a list \<Rightarrow> string \<Rightarrow> nat list \<Rightarrow> bool option" where
  "check_presence word guess feedback [] = Some True"
| "check_presence word guess feedback (i # rest) = do {
     f \<leftarrow> getitem feedback i;
     if f = CHR ''1'' then do {
       g \<leftarrow> getitem guess i;
       if g \<notin> set word then Some False else check_presence word guess feedback rest
     } else check_presence word guess feedback rest
   }"

fun check_counts ::
  "'a list \<Rightarrow> 'a list \<Rightarrow> string \<Rightarrow> ('a \<rightharpoonup> nat) \<Rightarrow> nat list \<Rightarrow> bool option" where
  "check_counts word guess feedback required_counts [] = Some True"
| "check_counts word guess feedback required_counts (i # rest) = do {
     f \<leftarrow> getitem feedback i;
     if f = CHR ''0'' then do {
       letter \<leftarrow> getitem guess i;
       let allowed = dict_get required_counts letter 0;
       if dict_get (Counter word) letter 0 > allowed then Some False
       else check_counts word guess feedback required_counts rest
     } else check_counts word guess feedback required_counts rest
   }"

fun filter_words_loop ::
  "'a list list \<Rightarrow> 'a list \<Rightarrow> string \<Rightarrow> ('a \<rightharpoonup> nat) \<Rightarrow> 'a list list \<Rightarrow> 'a list list option"
  where
  "filter_words_loop [] guess feedback required_counts result = Some result"
| "filter_words_loop (word # words) guess feedback required_counts result =
     (if word = guess then filter_words_loop words guess feedback required_counts result
      else do {
        valid \<leftarrow> check_positions word guess feedback range5;
        if \<not> valid then filter_words_loop words guess feedback required_counts result
        else do {
          valid \<leftarrow> check_presence word guess feedback range5;
          if \<not> valid then filter_words_loop words guess feedback required_counts result
          else do {
            valid \<leftarrow> check_counts word guess feedback required_counts range5;
            filter_words_loop words guess feedback required_counts
              (if valid then result @ [word] else result)
          }
        }
      })"

definition filter_words :: "'a list list \<Rightarrow> 'a list \<Rightarrow> string \<Rightarrow> 'a list list option" where
  "filter_words words guess feedback = do {
     required_counts \<leftarrow> required_counts_loop feedback (List.enumerate 0 guess) Map.empty;
     filter_words_loop words guess feedback required_counts []
   }"

text \<open>
  The verdict of the loop body for one word: \<open>Some True\<close> when the word is appended to
  the result, \<open>Some False\<close> when it is skipped, \<open>None\<close> when an index is out of range.
\<close>

definition word_verdict :: "'a list \<Rightarrow> 'a list \<Rightarrow> string \<Rightarrow> ('a \<rightharpoonup> nat) \<Rightarrow> bool option" where
  "word_verdict word guess feedback required_counts =
     (if word = guess then Some False
      else do {
        v1 \<leftarrow> check_positions word guess feedback range5;
        if \<not> v1 then Some False
        else do {
          v2 \<leftarrow> check_presence word guess feedback range5;
          if \<not> v2 then Some False
          else check_counts word guess feedback required_counts range5
        }
      })"

text \<open>
  The required count of section 4.2, step 3, in the spec's words: the number of positions
  of the guess that carry the letter and are marked \<open>1\<close> or \<open>2\<close>.
\<close>

definition requiredCount :: "'a list \<Rightarrow> string \<Rightarrow> 'a \<Rightarrow> nat" where
  "requiredCount guess feedback L =
     length (filter (\<lambda>i. guess ! i = L \<and> (feedback ! i = CHR ''1'' \<or> feedback ! i = CHR ''2''))
       [0..<length guess])"

text \<open>
  Consistency of a candidate with a guess and its feedback, in the spec's words
  (section 4.2, steps 1 to 3).
\<close>

definition spec_consistent :: "'a list \<Rightarrow> string \<Rightarrow> 'a list \<Rightarrow> bool" where
  "spec_consistent guess feedback c \<longleftrightarrow>
     c \<noteq> guess \<and>
     (\<forall>i \<in> set range5.
        (feedback ! i = CHR ''2'' \<longrightarrow> c ! i = guess ! i) \<and>
        (feedback ! i = CHR ''1'' \<longrightarrow> c ! i \<noteq> guess ! i \<and> guess ! i \<in> set c) \<and>
        (feedback ! i = CHR ''0'' \<longrightarrow> count_list c (guess ! i) \<le> requiredCount guess feedback (guess ! i)))"

section \<open>evaluate_word: the feedback simulator\<close>

text \<open>
  The body of the loop over \<open>target\<close> in \<^verbatim>\<open>evaluate_word\<close> computes the feedback pattern
  of \<open>word\<close> against \<open>target\<close>. Its three local lists are passed as a state
  \<open>(feedback, target_letters, word_letters)\<close>; a consumed letter is \<open>None\<close>, as in the
  source. An assignment \<^verbatim>\<open>xs[i] = v\<close> out of range and \<^verbatim>\<open>xs.index(v)\<close> on an absent value
  raise, which is \<open>None\<close> here.
\<close>

definition setitem :: "'a list \<Rightarrow> nat \<Rightarrow> 'a \<Rightarrow> 'a list option" where
  "setitem xs i v = (if i < length xs then Some (xs[i := v]) else None)"

fun list_index :: "'a list \<Rightarrow> 'a \<Rightarrow> nat option" where
  "list_index [] x = None"
| "list_index (y # ys) x = (if y = x then Some 0 else map_option Suc (list_index ys x))"

type_synonym 'a sim_state = "nat list \<times> 'a option list \<times> 'a option list"

fun exact_pass :: "nat list \<Rightarrow> 'a sim_state \<Rightarrow> 'a sim_state option" where
  "exact_pass [] st = Some st"
| "exact_pass (i # rest) (feedback, target_letters, word_letters) = do {
     w \<leftarrow> getitem word_letters i;
     t \<leftarrow> getitem target_letters i;
     if w = t then do {
       feedback' \<leftarrow> setitem feedback i 2;
       target_letters' \<leftarrow> setitem target_letters i None;
       word_letters' \<leftarrow> setitem word_letters i None;
       exact_pass rest (feedback', target_letters', word_letters')
     } else exact_pass rest (feedback, target_letters, word_letters)
   }"

fun leftover_pass :: "nat list \<Rightarrow> 'a sim_state \<Rightarrow> 'a sim_state option" where
  "leftover_pass [] st = Some st"
| "leftover_pass (i # rest) (feedback, target_letters, word_letters) = do {
     w \<leftarrow> getitem word_letters i;
     if w \<noteq> None \<and> w \<in> set target_letters then do {
       feedback' \<leftarrow> setitem feedback i 1;
       idx \<leftarrow> list_index target_letters w;
       target_letters' \<leftarrow> setitem target_letters idx None;
       leftover_pass rest (feedback', target_letters', word_letters)
     } else leftover_pass rest (feedback, target_letters, word_letters)
   }"

definition simulate :: "'a list \<Rightarrow> 'a list \<Rightarrow> nat list option" where
  "simulate word target = do {
     (feedback, target_letters, word_letters) \<leftarrow>
       exact_pass range5 (replicate 5 0, map Some target, map Some word);
     (feedback, target_letters, word_letters) \<leftarrow>
       leftover_pass range5 (feedback, target_letters, word_letters);
     f0 \<leftarrow> getitem feedback 0;
     f1 \<leftarrow> getitem feedback 1;
     f2 \<leftarrow> getitem feedback 2;
     f3 \<leftarrow> getitem feedback 3;
     f4 \<leftarrow> getitem feedback 4;
     Some [f0, f1, f2, f3, f4]
   }"

text \<open>
  The simulator in the spec's words (section 4.3). Pass 1 marks the positions where guess
  and secret agree and leaves the other secret letters unconsumed, in position order;
  pass 2 walks the guess positions in order and consumes the first unconsumed instance of
  a letter it marks \<open>PRESENT_ELSEWHERE\<close>.
\<close>

datatype mark = ABSENT | PRESENT_ELSEWHERE | CORRECT_POSITION

fun mark_code :: "mark \<Rightarrow> nat" where
  "mark_code ABSENT = 0"
| "mark_code PRESENT_ELSEWHERE = 1"
| "mark_code CORRECT_POSITION = 2"

fun spec_pass2 :: "('a \<times> 'a) list \<Rightarrow> 'a list \<Rightarrow> mark list" where
  "spec_pass2 [] remaining = []"
| "spec_pass2 ((g, s) # rest) remaining =
     (if g = s then CORRECT_POSITION # spec_pass2 rest remaining
      else if g \<in> set remaining then PRESENT_ELSEWHERE # spec_pass2 rest (remove1 g remaining)
      else ABSENT # spec_pass2 rest remaining)"

definition spec_simulate :: "'a list \<Rightarrow> 'a list \<Rightarrow> mark list" where
  "spec_simulate guess secret =
     spec_pass2 (zip guess secret) (map snd (filter (\<lambda>(g, s). g \<noteq> s) (zip guess secret)))"

text \<open>
  The digits a user types for a pattern, as the prompt of \<^verbatim>\<open>get_feedback_interactive\<close>
  names them (0 grey, 1 yellow, 2 green); this is the form in which \<open>filter_words\<close>
  reads a pattern.
\<close>

definition feedback_digits :: "nat list \<Rightarrow> string" where
  "feedback_digits p =
     map (\<lambda>d. if d = 2 then CHR ''2'' else if d = 1 then CHR ''1'' else CHR ''0'') p"

text \<open>
  The words of the scenario of section 8, as lists of Unicode code points (Cyrillic small
  letters \<open>a\<close> to \<open>ya\<close> are 1072 to 1103).
\<close>

definition oblik :: "nat list" where "oblik = [1086, 1073, 1083, 1080, 1082]"
definition ogon :: "nat list" where "ogon = [1086, 1075, 1086, 1085, 1100]"
definition opera :: "nat list" where "opera = [1086, 1087, 1077, 1088, 1072]"
definition osen :: "nat list" where "osen = [1086, 1089, 1077, 1085, 1100]"
definition ohota :: "nat list" where "ohota = [1086, 1093, 1086, 1090, 1072]"

text \<open>
  Auxiliary notions for the proofs about the simulator: the unconsumed letters of a list
  with consumed entries, a list whose first \<open>k\<close> entries are already rewritten, and the
  three lists as they stand after the first pass.
\<close>

fun somes :: "'a option list \<Rightarrow> 'a list" where
  "somes [] = []"
| "somes (None # xs) = somes xs"
| "somes (Some x # xs) = x # somes xs"

definition mix :: "nat \<Rightarrow> 'a list \<Rightarrow> 'a list \<Rightarrow> 'a list" where
  "mix k new old = take k new @ drop k old"

definition fb1 :: "('a \<times> 'a) list \<Rightarrow> nat list" where
  "fb1 ps = map (\<lambda>(a, b). if a = b then 2 else 0) ps"

definition tl1 :: "('a \<times> 'a) list \<Rightarrow> 'a option list" where
  "tl1 ps = map (\<lambda>(a, b). if a = b then None else Some b) ps"

definition wl1 :: "('a \<times> 'a) list \<Rightarrow> 'a option list" where
  "wl1 ps = map (\<lambda>(a, b). if a = b then None else Some a) ps"

section \<open>Properties of filter_words\<close>

lemma getitem_Some [simp]: "getitem xs i = Some x \<longleftrightarrow> i < length xs \<and> x = xs ! i"
  by (auto simp: getitem_def)

lemma getitem_None [simp]: "getitem xs i = None \<longleftrightarrow> length xs \<le> i"
  by (auto simp: getitem_def)

lemma getitem_in [simp]: "i < length xs \<Longrightarrow> getitem xs i = Some (xs ! i)"
  by (simp add: getitem_def)

lemma dict_get_upd [simp]: "dict_get (m(k \<mapsto> v)) k' d = (if k' = k then v else dict_get m k' d)"
  by (simp add: dict_get_def)

lemma dict_get_empty [simp]: "dict_get Map.empty k d = d"
  by (simp add: dict_get_def)

lemma dict_get_Counter [simp]: "dict_get (Counter xs) c 0 = count_list xs c"
  by (simp add: dict_get_def Counter_def count_list_0_iff)

lemma required_counts_loop_None:
  "required_counts_loop f ps rc0 = None \<longleftrightarrow> (\<exists>p \<in> set ps. length f \<le> fst p)"
  by (induction f ps rc0 rule: required_counts_loop.induct)
     (auto split: Option.bind_splits)

lemma required_counts_loop_Some:
  "required_counts_loop f ps rc0 = Some rc \<Longrightarrow>
     dict_get rc L 0 = dict_get rc0 L 0 +
       length (filter (\<lambda>p. snd p = L \<and> (f ! fst p = CHR ''1'' \<or> f ! fst p = CHR ''2'')) ps)"
  by (induction f ps rc0 rule: required_counts_loop.induct)
     (auto split: Option.bind_splits if_splits)

lemma enumerate_map_nth: "List.enumerate 0 xs = map (\<lambda>i. (i, xs ! i)) [0..<length xs]"
  by (rule nth_equalityI) (auto simp: nth_enumerate_eq)

lemma required_counts_guess:
  assumes "required_counts_loop f (List.enumerate 0 g) Map.empty = Some rc"
  shows "dict_get rc L 0 = requiredCount g f L"
  using required_counts_loop_Some [OF assms, of L]
  by (simp add: requiredCount_def enumerate_map_nth filter_map o_def)

lemma required_counts_defined:
  "required_counts_loop f (List.enumerate 0 g) Map.empty \<noteq> None \<longleftrightarrow> length g \<le> length f"
proof
  assume "required_counts_loop f (List.enumerate 0 g) Map.empty \<noteq> None"
  then have "\<forall>i < length g. i < length f"
    by (auto simp: required_counts_loop_None enumerate_map_nth)
  then show "length g \<le> length f"
    by (cases g rule: rev_cases) (auto dest: spec [of _ "length g - 1"])
next
  assume "length g \<le> length f"
  then show "required_counts_loop f (List.enumerate 0 g) Map.empty \<noteq> None"
    by (auto simp: required_counts_loop_None enumerate_map_nth)
qed

lemma check_positions_Some:
  "check_positions w g f is = Some b \<Longrightarrow>
     b \<longleftrightarrow> (\<forall>i \<in> set is. (f ! i = CHR ''2'' \<longrightarrow> w ! i = g ! i) \<and> (f ! i = CHR ''1'' \<longrightarrow> w ! i \<noteq> g ! i))"
  by (induction w g f "is" arbitrary: b rule: check_positions.induct)
     (auto split: Option.bind_splits if_splits)

lemma check_presence_Some:
  "check_presence w g f is = Some b \<Longrightarrow>
     b \<longleftrightarrow> (\<forall>i \<in> set is. f ! i = CHR ''1'' \<longrightarrow> g ! i \<in> set w)"
  by (induction w g f "is" arbitrary: b rule: check_presence.induct)
     (auto split: Option.bind_splits if_splits)

lemma check_counts_Some:
  "check_counts w g f rc is = Some b \<Longrightarrow>
     b \<longleftrightarrow> (\<forall>i \<in> set is. f ! i = CHR ''0'' \<longrightarrow> count_list w (g ! i) \<le> dict_get rc (g ! i) 0)"
  by (induction w g f rc "is" arbitrary: b rule: check_counts.induct)
     (auto split: Option.bind_splits if_splits simp: Let_def)

lemma check_positions_True_len:
  "check_positions w g f is = Some True \<Longrightarrow> i \<in> set is \<Longrightarrow> i < length f"
  by (induction w g f "is" rule: check_positions.induct)
     (auto split: Option.bind_splits if_splits)

lemma check_positions_defined:
  "\<forall>i \<in> set is. i < length f \<and> i < length w \<and> i < length g \<Longrightarrow> check_positions w g f is \<noteq> None"
  by (induction w g f "is" rule: check_positions.induct) auto

lemma check_presence_defined:
  "\<forall>i \<in> set is. i < length f \<and> i < length g \<Longrightarrow> check_presence w g f is \<noteq> None"
  by (induction w g f "is" rule: check_presence.induct) auto

lemma check_counts_defined:
  "\<forall>i \<in> set is. i < length f \<and> i < length g \<Longrightarrow> check_counts w g f rc is \<noteq> None"
  by (induction w g f rc "is" rule: check_counts.induct) (auto simp: Let_def)

lemma filter_words_loop_Cons:
  "filter_words_loop (w # ws) g f rc res = do {
     v \<leftarrow> word_verdict w g f rc;
     filter_words_loop ws g f rc (if v then res @ [w] else res) }"
  by (auto simp: word_verdict_def split: Option.bind_split)

lemma filter_words_loop_Some:
  "filter_words_loop ws g f rc res = Some r \<longleftrightarrow>
     (\<forall>w \<in> set ws. word_verdict w g f rc \<noteq> None) \<and>
     r = res @ filter (\<lambda>w. word_verdict w g f rc = Some True) ws"
proof (induction ws arbitrary: res)
  case Nil
  show ?case by auto
next
  case (Cons w ws)
  show ?case
    unfolding filter_words_loop_Cons
    by (cases "word_verdict w g f rc") (auto simp: Cons.IH)
qed

lemma word_verdict_Some:
  assumes "required_counts_loop f (List.enumerate 0 g) Map.empty = Some rc"
    and "word_verdict w g f rc = Some b"
  shows "b \<longleftrightarrow> spec_consistent g f w"
proof (cases "w = g")
  case True
  with assms show ?thesis by (simp add: word_verdict_def spec_consistent_def)
next
  case False
  from assms(2) False obtain v1 where v1: "check_positions w g f range5 = Some v1"
    by (auto simp: word_verdict_def split: Option.bind_splits)
  show ?thesis
  proof (cases v1)
    case F1: False
    with assms(2) False v1 have "\<not> b" by (simp add: word_verdict_def)
    with check_positions_Some [OF v1] F1 show ?thesis
      by (auto simp: spec_consistent_def)
  next
    case T1: True
    from assms(2) False v1 T1 obtain v2 where v2: "check_presence w g f range5 = Some v2"
      by (auto simp: word_verdict_def split: Option.bind_splits)
    show ?thesis
    proof (cases v2)
      case F2: False
      with assms(2) False v1 T1 v2 have "\<not> b" by (simp add: word_verdict_def)
      with check_presence_Some [OF v2] F2 show ?thesis
        by (auto simp: spec_consistent_def)
    next
      case T2: True
      with assms(2) False v1 T1 v2 have v3: "check_counts w g f rc range5 = Some b"
        by (simp add: word_verdict_def)
      from check_positions_Some [OF v1] T1 check_presence_Some [OF v2] T2
        check_counts_Some [OF v3] False
      show ?thesis
        by (auto simp: spec_consistent_def required_counts_guess [OF assms(1)])
    qed
  qed
qed

lemma word_verdict_defined:
  assumes "5 \<le> length f" "5 \<le> length g" "5 \<le> length w"
  shows "word_verdict w g f rc \<noteq> None"
proof -
  have r: "\<forall>i \<in> set range5. i < length f \<and> i < length w \<and> i < length g"
    using assms by (auto simp: range5_def)
  from r have "check_positions w g f range5 \<noteq> None"
    by (intro check_positions_defined) blast
  moreover from r have "check_presence w g f range5 \<noteq> None"
    by (intro check_presence_defined) blast
  moreover from r have "check_counts w g f rc range5 \<noteq> None"
    by (intro check_counts_defined) blast
  ultimately show ?thesis
    by (auto simp: word_verdict_def split: Option.bind_splits)
qed

lemma filter_words_Some:
  assumes "filter_words ws g f = Some r"
  shows "r = filter (spec_consistent g f) ws"
proof -
  from assms obtain rc where rc: "required_counts_loop f (List.enumerate 0 g) Map.empty = Some rc"
    and l: "filter_words_loop ws g f rc [] = Some r"
    by (auto simp: filter_words_def split: Option.bind_splits)
  from l have d: "\<forall>w \<in> set ws. word_verdict w g f rc \<noteq> None"
    and r: "r = filter (\<lambda>w. word_verdict w g f rc = Some True) ws"
    by (auto simp: filter_words_loop_Some)
  have "filter (\<lambda>w. word_verdict w g f rc = Some True) ws = filter (spec_consistent g f) ws"
  proof (rule filter_cong [OF refl])
    fix w assume "w \<in> set ws"
    with d obtain b where b: "word_verdict w g f rc = Some b" by auto
    from word_verdict_Some [OF rc b] b
    show "(word_verdict w g f rc = Some True) = spec_consistent g f w" by auto
  qed
  with r show ?thesis by simp
qed

lemma filter_words_defined:
  assumes "length g = 5" "length f = 5" "\<forall>w \<in> set ws. length w = 5"
  shows "filter_words ws g f \<noteq> None"
proof -
  from assms have "required_counts_loop f (List.enumerate 0 g) Map.empty \<noteq> None"
    using required_counts_defined [of f g] by linarith
  then obtain rc where rc: "required_counts_loop f (List.enumerate 0 g) Map.empty = Some rc"
    by auto
  have "\<forall>w \<in> set ws. word_verdict w g f rc \<noteq> None"
    using assms word_verdict_defined [of f g _ rc] by force
  then have "filter_words_loop ws g f rc [] \<noteq> None"
    using filter_words_loop_Some [of ws g f rc "[]"] by simp
  with rc show ?thesis by (simp add: filter_words_def)
qed

lemma set_range5: "set range5 = {..<5}"
  by (auto simp: range5_def)

lemma spec_consistent_absent:
  assumes "spec_consistent g f c" "i < 5" "f ! i = CHR ''0''"
  shows "count_list c (g ! i) \<le> requiredCount g f (g ! i)"
proof -
  from assms(2) have "i \<in> set range5" by (simp add: set_range5)
  with assms(1,3) show ?thesis unfolding spec_consistent_def by blast
qed

lemma spec_consistent_neq: "spec_consistent g f c \<Longrightarrow> c \<noteq> g"
  unfolding spec_consistent_def by (rule conjunct1)

lemma filter_words_example:
  "filter_words [''axyzw'', ''axyza'', ''abcad'', ''bxyzw''] ''abcad'' ''20000'' = Some [''axyzw'']"
  by (simp add: filter_words_def range5_def enumerate_eq_zip upt_conv_Cons dict_get_def
      Counter_def)

text \<open>
  Claim C5. Whenever \<open>filter_words\<close> returns, its result holds only words of the input
  list and never the guess itself; and it does return (no index is out of range) when the
  guess, the feedback and every candidate have length 5. The input list is only read:
  the source appends to a fresh \<open>result\<close> list, which is how the model passes \<open>words\<close>
  through unchanged.
\<close>

theorem filter_words_subset_no_guess:
  "(filter_words ws g f = Some r \<longrightarrow> set r \<subseteq> set ws \<and> g \<notin> set r) \<and>
   (length g = 5 \<and> length f = 5 \<and> (\<forall>w \<in> set ws. length w = 5) \<longrightarrow> filter_words ws g f \<noteq> None)"
proof (intro conjI impI)
  assume "filter_words ws g f = Some r"
  then have r: "r = filter (spec_consistent g f) ws" by (rule filter_words_Some)
  then show "set r \<subseteq> set ws" by simp
  from r show "g \<notin> set r" using spec_consistent_neq [of g f g] by auto
next
  assume "length g = 5 \<and> length f = 5 \<and> (\<forall>w \<in> set ws. length w = 5)"
  then show "filter_words ws g f \<noteq> None"
    using filter_words_defined [of g f ws] by blast
qed

theorem filter_words_subset_no_guess_witness:
  "filter_words [''axyzw'', ''axyza'', ''abcad'', ''bxyzw''] ''abcad'' ''20000'' = Some [''axyzw''] \<and>
   set [''axyzw''] \<subseteq> set [''axyzw'', ''axyza'', ''abcad'', ''bxyzw''] \<and>
   ''abcad'' \<notin> set [''axyzw'']"
proof -
  note ex = filter_words_example
  from filter_words_subset_no_guess
    [of "[''axyzw'', ''axyza'', ''abcad'', ''bxyzw'']" "''abcad''" "''20000''" "[''axyzw'']"]
  have "filter_words [''axyzw'', ''axyza'', ''abcad'', ''bxyzw''] ''abcad'' ''20000'' = Some [''axyzw'']
    \<longrightarrow> set [''axyzw''] \<subseteq> set [''axyzw'', ''axyza'', ''abcad'', ''bxyzw''] \<and>
      ''abcad'' \<notin> set [''axyzw'']"
    by (rule conjunct1)
  from mp [OF this ex] ex show ?thesis by (rule_tac conjI)
qed

text \<open>
  Claim C1. Duplicate-letter accounting. Whenever \<open>filter_words\<close> returns, every surviving
  candidate \<open>c\<close> has, for each position \<open>i\<close> marked \<open>0\<close>, at most
  \<open>requiredCount guess feedback (guess ! i)\<close> occurrences of the letter \<open>guess ! i\<close>; and the
  survivors are exactly the candidates consistent in the sense of \<open>spec_consistent\<close>, so a
  letter marked \<open>0\<close> in one slot and \<open>1\<close> or \<open>2\<close> in another may occur up to its required
  count.
\<close>

theorem filter_words_duplicate_accounting:
  "filter_words ws g f = Some r \<Longrightarrow>
     (\<forall>c \<in> set r. \<forall>i < 5. f ! i = CHR ''0'' \<longrightarrow>
        count_list c (g ! i) \<le> requiredCount g f (g ! i)) \<and>
     r = filter (spec_consistent g f) ws"
proof -
  assume "filter_words ws g f = Some r"
  then have r: "r = filter (spec_consistent g f) ws" by (rule filter_words_Some)
  then have "\<forall>c \<in> set r. spec_consistent g f c" by simp
  then have "\<forall>c \<in> set r. \<forall>i < 5. f ! i = CHR ''0'' \<longrightarrow>
        count_list c (g ! i) \<le> requiredCount g f (g ! i)"
    using spec_consistent_absent by blast
  with r show ?thesis by (rule_tac conjI)
qed

theorem filter_words_duplicate_accounting_witness:
  "filter_words [''axyzw'', ''axyza'', ''abcad'', ''bxyzw''] ''abcad'' ''20000'' = Some [''axyzw''] \<and>
   ''20000'' ! 3 = CHR ''0'' \<and> ''20000'' ! 0 = CHR ''2'' \<and>
   ''abcad'' ! 3 = CHR ''a'' \<and> ''abcad'' ! 0 = CHR ''a'' \<and>
   requiredCount ''abcad'' ''20000'' (CHR ''a'') = 1 \<and>
   count_list ''axyzw'' (CHR ''a'') = 1 \<and>
   count_list ''axyzw'' (''abcad'' ! 3) \<le> requiredCount ''abcad'' ''20000'' (''abcad'' ! 3) \<and>
   [''axyzw''] = filter (spec_consistent ''abcad'' ''20000'')
     [''axyzw'', ''axyza'', ''abcad'', ''bxyzw'']"
proof -
  note ex = filter_words_example
  have rc: "requiredCount ''abcad'' ''20000'' (CHR ''a'') = 1"
    by (simp add: requiredCount_def upt_conv_Cons)
  have f1: "''20000'' ! 3 = CHR ''0''" by simp
  have f2: "''20000'' ! 0 = CHR ''2''" by simp
  have f3: "''abcad'' ! 3 = CHR ''a''" by simp
  have f4: "''abcad'' ! 0 = CHR ''a''" by simp
  have f5: "count_list ''axyzw'' (CHR ''a'') = 1" by simp
  note t = filter_words_duplicate_accounting [OF ex]
  from t have b: "\<forall>c \<in> set [''axyzw'']. \<forall>i < 5. ''20000'' ! i = CHR ''0'' \<longrightarrow>
      count_list c (''abcad'' ! i) \<le> requiredCount ''abcad'' ''20000'' (''abcad'' ! i)"
    by (rule conjunct1)
  from t have e: "[''axyzw''] = filter (spec_consistent ''abcad'' ''20000'')
      [''axyzw'', ''axyza'', ''abcad'', ''bxyzw'']"
    by (rule conjunct2)
  have m: "''axyzw'' \<in> set [''axyzw'']" by simp
  have l: "(3::nat) < 5" by simp
  from bspec [OF b m] l f1
  have c: "count_list ''axyzw'' (''abcad'' ! 3) \<le> requiredCount ''abcad'' ''20000'' (''abcad'' ! 3)"
    by blast
  show ?thesis
    by (intro conjI) (rule ex f1 f2 f3 f4 f5 rc c e)+
qed

section \<open>Properties of the feedback simulator\<close>

lemma setitem_Some [simp]: "setitem xs i v = Some ys \<longleftrightarrow> i < length xs \<and> ys = xs[i := v]"
  by (auto simp: setitem_def)

lemma setitem_in [simp]: "i < length xs \<Longrightarrow> setitem xs i v = Some (xs[i := v])"
  by (simp add: setitem_def)

lemma mix_0 [simp]: "mix 0 new old = old"
  by (simp add: mix_def)

lemma mix_length [simp]: "length new = length old \<Longrightarrow> k \<le> length old \<Longrightarrow> length (mix k new old) = length old"
  by (simp add: mix_def)

lemma mix_all [simp]: "length new = length old \<Longrightarrow> mix (length old) new old = new"
  by (simp add: mix_def)

lemma mix_nth [simp]: "length new = length old \<Longrightarrow> k < length old \<Longrightarrow> mix k new old ! k = old ! k"
  by (simp add: mix_def nth_append)

lemma mix_update:
  "length new = length old \<Longrightarrow> k < length old \<Longrightarrow> (mix k new old)[k := new ! k] = mix (Suc k) new old"
  by (simp add: mix_def list_update_append take_Suc_conv_app_nth upd_conv_take_nth_drop
      Cons_nth_drop_Suc [symmetric])

lemma mix_same:
  "length new = length old \<Longrightarrow> k < length old \<Longrightarrow> new ! k = old ! k \<Longrightarrow> mix k new old = mix (Suc k) new old"
  using mix_update [of new old k] mix_nth [of new old k]
  by (metis list_update_id)

lemma exact_pass_upt:
  assumes "length g = n" "length s = n"
  shows "k \<le> n \<Longrightarrow>
     exact_pass [k..<n] (mix k (fb1 (zip g s)) (replicate n 0),
                         mix k (tl1 (zip g s)) (map Some s),
                         mix k (wl1 (zip g s)) (map Some g))
       = Some (fb1 (zip g s), tl1 (zip g s), wl1 (zip g s))"
proof (induction "n - k" arbitrary: k)
  case 0
  then have "k = n" by simp
  with assms show ?case by (simp add: fb1_def tl1_def wl1_def mix_def)
next
  case (Suc d)
  then have k: "k < n" and d: "d = n - Suc k" and le: "Suc k \<le> n" by simp_all
  have upt: "[k..<n] = k # [Suc k..<n]" using k by (simp add: upt_conv_Cons)
  have lens: "length (fb1 (zip g s)) = length (replicate n (0::nat))"
             "length (tl1 (zip g s)) = length (map Some s)"
             "length (wl1 (zip g s)) = length (map Some g)"
    using assms by (simp_all add: fb1_def tl1_def wl1_def)
  have kl: "k < length (replicate n (0::nat))" "k < length (map Some s)" "k < length (map Some g)"
    using assms k by simp_all
  note IH = Suc.hyps(1) [OF d le]
  have g1: "getitem (mix k (wl1 (zip g s)) (map Some g)) k = Some (Some (g ! k))"
    using mix_nth [OF lens(3) kl(3)] mix_length [OF lens(3), of k] assms k by simp
  have g2: "getitem (mix k (tl1 (zip g s)) (map Some s)) k = Some (Some (s ! k))"
    using mix_nth [OF lens(2) kl(2)] mix_length [OF lens(2), of k] assms k by simp
  show ?case
  proof (cases "g ! k = s ! k")
    case True
    have n1: "fb1 (zip g s) ! k = 2" "tl1 (zip g s) ! k = None" "wl1 (zip g s) ! k = None"
      using True assms k by (simp_all add: fb1_def tl1_def wl1_def)
    have u1: "(mix k (fb1 (zip g s)) (replicate n 0))[k := 2] = mix (Suc k) (fb1 (zip g s)) (replicate n 0)"
      using mix_update [OF lens(1) kl(1)] n1 by simp
    have u2: "(mix k (tl1 (zip g s)) (map Some s))[k := None] = mix (Suc k) (tl1 (zip g s)) (map Some s)"
      using mix_update [OF lens(2) kl(2)] n1 by simp
    have u3: "(mix k (wl1 (zip g s)) (map Some g))[k := None] = mix (Suc k) (wl1 (zip g s)) (map Some g)"
      using mix_update [OF lens(3) kl(3)] n1 by simp
    have s1: "setitem (mix k (fb1 (zip g s)) (replicate n 0)) k 2 = Some (mix (Suc k) (fb1 (zip g s)) (replicate n 0))"
      using u1 mix_length [OF lens(1), of k] k by (simp add: setitem_def)
    have s2: "setitem (mix k (tl1 (zip g s)) (map Some s)) k None = Some (mix (Suc k) (tl1 (zip g s)) (map Some s))"
      using u2 mix_length [OF lens(2), of k] k assms by (simp add: setitem_def)
    have s3: "setitem (mix k (wl1 (zip g s)) (map Some g)) k None = Some (mix (Suc k) (wl1 (zip g s)) (map Some g))"
      using u3 mix_length [OF lens(3), of k] k assms by (simp add: setitem_def)
    show ?thesis
      unfolding upt exact_pass.simps g1 g2 s1 s2 s3 using True IH by simp
  next
    case False
    have n1: "fb1 (zip g s) ! k = replicate n 0 ! k" "tl1 (zip g s) ! k = map Some s ! k"
             "wl1 (zip g s) ! k = map Some g ! k"
      using False assms k by (simp_all add: fb1_def tl1_def wl1_def)
    have u1: "mix k (fb1 (zip g s)) (replicate n 0) = mix (Suc k) (fb1 (zip g s)) (replicate n 0)"
      by (rule mix_same [OF lens(1) kl(1) n1(1)])
    have u2: "mix k (tl1 (zip g s)) (map Some s) = mix (Suc k) (tl1 (zip g s)) (map Some s)"
      by (rule mix_same [OF lens(2) kl(2) n1(2)])
    have u3: "mix k (wl1 (zip g s)) (map Some g) = mix (Suc k) (wl1 (zip g s)) (map Some g)"
      by (rule mix_same [OF lens(3) kl(3) n1(3)])
    show ?thesis
      unfolding upt exact_pass.simps g1 g2 using False IH u1 u2 u3 by simp
  qed
qed

lemma range5_upt: "range5 = [0..<5]"
  by (simp add: range5_def upt_conv_Cons)

lemma exact_pass_range5:
  assumes "length g = 5" "length s = 5"
  shows "exact_pass range5 (replicate 5 0, map Some s, map Some g)
       = Some (fb1 (zip g s), tl1 (zip g s), wl1 (zip g s))"
  using exact_pass_upt [OF assms, of 0] by (simp add: range5_upt)

lemma somes_set [simp]: "Some a \<in> set xs \<longleftrightarrow> a \<in> set (somes xs)"
  by (induction xs rule: somes.induct) auto

lemma list_index_somes:
  "Some a \<in> set xs \<Longrightarrow>
     \<exists>idx. list_index xs (Some a) = Some idx \<and> idx < length xs \<and>
           somes (xs[idx := None]) = remove1 a (somes xs)"
proof (induction xs rule: somes.induct)
  case 1
  then show ?case by simp
next
  case (2 xs)
  then have "a \<in> set (somes xs)" by simp
  then have "Some a \<in> set xs" by simp
  from 2(1) [OF this] show ?case by auto
next
  case (3 x xs)
  show ?case
  proof (cases "x = a")
    case True
    then show ?thesis by simp
  next
    case False
    with 3(2) have "Some a \<in> set xs" by simp
    from 3(1) [OF this] False show ?thesis by auto
  qed
qed

lemma somes_tl1: "somes (tl1 ps) = map snd (filter (\<lambda>(g, s). g \<noteq> s) ps)"
  by (induction ps) (auto simp: tl1_def)

lemma leftover_pass_upt:
  assumes n: "length ps = n"
  shows "k \<le> n \<Longrightarrow> length fb = n \<Longrightarrow>
     (\<forall>j. k \<le> j \<and> j < n \<longrightarrow> fb ! j = (if fst (ps ! j) = snd (ps ! j) then 2 else 0)) \<Longrightarrow>
     \<exists>tl'. leftover_pass [k..<n] (fb, tls, wl1 ps)
       = Some (take k fb @ map mark_code (spec_pass2 (drop k ps) (somes tls)), tl', wl1 ps)"
proof (induction "n - k" arbitrary: k fb tls)
  case 0
  then have "k = n" by simp
  with 0 n show ?case by simp
next
  case (Suc d)
  then have k: "k < n" and d: "d = n - Suc k" and le: "Suc k \<le> n" by simp_all
  have upt: "[k..<n] = k # [Suc k..<n]" using k by (simp add: upt_conv_Cons)
  obtain a b where ab: "ps ! k = (a, b)" by (cases "ps ! k")
  have dr: "drop k ps = (a, b) # drop (Suc k) ps"
    using k n ab by (simp add: Cons_nth_drop_Suc [symmetric])
  have fbk: "fb ! k = (if a = b then 2 else 0)"
    using Suc.prems(3) k ab by auto
  have tk: "take (Suc k) fb = take k fb @ [fb ! k]"
    using k Suc.prems(2) by (simp add: take_Suc_conv_app_nth)
  have gw: "getitem (wl1 ps) k = Some (if a = b then None else Some a)"
    using k n ab by (simp add: wl1_def)
  have rest: "\<forall>j. Suc k \<le> j \<and> j < n \<longrightarrow> fb ! j = (if fst (ps ! j) = snd (ps ! j) then 2 else 0)"
    using Suc.prems(3) by auto
  show ?case
  proof (cases "a \<noteq> b \<and> a \<in> set (somes tls)")
    case False
    from Suc.hyps(1) [OF d le Suc.prems(2) rest, of tls]
    obtain tl' where "leftover_pass [Suc k..<n] (fb, tls, wl1 ps)
       = Some (take (Suc k) fb @ map mark_code (spec_pass2 (drop (Suc k) ps) (somes tls)), tl', wl1 ps)"
      by blast
    then show ?thesis
      unfolding upt leftover_pass.simps gw dr using False tk fbk by auto
  next
    case True
    then have "Some a \<in> set tls" by simp
    from list_index_somes [OF this] obtain idx where
      idx: "list_index tls (Some a) = Some idx" "idx < length tls"
           "somes (tls[idx := None]) = remove1 a (somes tls)" by blast
    have len': "length (fb[k := 1]) = n" using Suc.prems(2) by simp
    have rest': "\<forall>j. Suc k \<le> j \<and> j < n \<longrightarrow> (fb[k := 1]) ! j = (if fst (ps ! j) = snd (ps ! j) then 2 else 0)"
      using rest by auto
    from Suc.hyps(1) [OF d le len' rest', of "tls[idx := None]"]
    obtain tl' where r: "leftover_pass [Suc k..<n] (fb[k := 1], tls[idx := None], wl1 ps)
       = Some (take (Suc k) (fb[k := 1]) @ map mark_code (spec_pass2 (drop (Suc k) ps) (somes (tls[idx := None]))), tl', wl1 ps)"
      by blast
    have tk': "take (Suc k) (fb[k := 1]) = take k fb @ [1]"
      using k Suc.prems(2) by (simp add: take_Suc_conv_app_nth)
    have si: "setitem fb k 1 = Some (fb[k := 1])" using k Suc.prems(2) by (simp add: setitem_def)
    have st: "setitem tls idx None = Some (tls[idx := None])" using idx(2) by (simp add: setitem_def)
    have cond: "(Some a \<noteq> None \<and> Some a \<in> set tls) = True" using True by simp
    show ?thesis
      unfolding upt leftover_pass.simps gw dr using True r tk' si st idx(1) idx(3) by auto
  qed
qed

lemma list5_nth: "length xs = 5 \<Longrightarrow> [xs ! 0, xs ! 1, xs ! 2, xs ! 3, xs ! 4] = xs"
  by (auto simp: list_eq_iff_nth_eq less_Suc_eq numeral_eq_Suc nth_Cons')

lemma spec_pass2_length [simp]: "length (spec_pass2 ps r) = length ps"
  by (induction ps r rule: spec_pass2.induct) auto

lemma simulate_refines:
  assumes "length word = 5" "length target = 5"
  shows "simulate word target = Some (map mark_code (spec_simulate word target))"
proof -
  let ?ps = "zip word target"
  have n: "length ?ps = 5" using assms by simp
  have p1: "exact_pass range5 (replicate 5 0, map Some target, map Some word)
       = Some (fb1 ?ps, tl1 ?ps, wl1 ?ps)"
    by (rule exact_pass_range5 [OF assms])
  have lf: "length (fb1 ?ps) = 5" using assms by (simp add: fb1_def)
  have inv: "\<forall>j. 0 \<le> j \<and> j < 5 \<longrightarrow> fb1 ?ps ! j = (if fst (?ps ! j) = snd (?ps ! j) then 2 else 0)"
    using assms by (auto simp: fb1_def)
  from leftover_pass_upt [OF n _ lf inv, of "tl1 ?ps"]
  obtain tl' where p2: "leftover_pass range5 (fb1 ?ps, tl1 ?ps, wl1 ?ps)
       = Some (map mark_code (spec_simulate word target), tl', wl1 ?ps)"
    by (auto simp: range5_upt spec_simulate_def somes_tl1)
  have len: "length (map mark_code (spec_simulate word target)) = 5"
    using assms by (simp add: spec_simulate_def)
  show ?thesis
    unfolding simulate_def p1 using p2 len list5_nth [OF len] by simp
qed

lemma mark_code_eq [simp]:
  "mark_code m = 2 \<longleftrightarrow> m = CORRECT_POSITION"
  "mark_code m = Suc 0 \<longleftrightarrow> m = PRESENT_ELSEWHERE"
  "mark_code m = 0 \<longleftrightarrow> m = ABSENT"
  by (cases m; simp)+

lemma spec_pass2_correct_iff:
  "i < length ps \<Longrightarrow> spec_pass2 ps r ! i = CORRECT_POSITION \<longleftrightarrow> fst (ps ! i) = snd (ps ! i)"
proof (induction ps r arbitrary: i rule: spec_pass2.induct)
  case (1 remaining)
  then show ?case by simp
next
  case (2 g s rest remaining)
  then show ?case by (cases i) auto
qed

lemma count_list_remove1:
  "count_list (remove1 x r) L = (if x = L \<and> x \<in> set r then count_list r L - 1 else count_list r L)"
  by (induction r) auto

lemma count_list_pos: "x \<in> set r \<Longrightarrow> 0 < count_list r x"
  by (induction r) auto

lemma spec_pass2_no_inflation:
  "length (filter (\<lambda>(m, (a, b)). m = PRESENT_ELSEWHERE \<and> a = L) (zip (spec_pass2 ps r) ps)) \<le> count_list r L"
proof (induction ps r rule: spec_pass2.induct)
  case (1 remaining)
  then show ?case by simp
next
  case (2 g s rest remaining)
  show ?case
  proof (cases "g = s")
    case True
    with 2(1) show ?thesis by simp
  next
    case ne: False
    show ?thesis
    proof (cases "g \<in> set remaining")
      case True
      from 2(2) [OF ne True] count_list_pos [OF True] ne True
      show ?thesis by (auto simp: count_list_remove1)
    next
      case False
      with 2(3) [OF ne False] ne show ?thesis by simp
    qed
  qed
qed

lemma count_list_unmatched:
  "count_list (map snd (filter (\<lambda>(g, s). g \<noteq> s) ps)) L + length (filter (\<lambda>(a, b). a = b \<and> a = L) ps)
     = count_list (map snd ps) L"
  by (induction ps) auto

lemma index_filter_length:
  "length (filter (\<lambda>i. P (xs ! i)) [0..<length xs]) = length (filter P xs)"
proof -
  have "filter P xs = filter P (map (\<lambda>i. xs ! i) [0..<length xs])" by (simp add: map_nth)
  also have "\<dots> = map (\<lambda>i. xs ! i) (filter (P \<circ> (\<lambda>i. xs ! i)) [0..<length xs])" by (simp only: filter_map)
  finally show ?thesis by (simp add: comp_def)
qed

lemma spec_simulate_length [simp]: "length (spec_simulate guess secret) = min (length guess) (length secret)"
  by (simp add: spec_simulate_def)

lemma spec_simulate_correct_iff:
  assumes "length guess = 5" "length secret = 5" "i < 5"
  shows "spec_simulate guess secret ! i = CORRECT_POSITION \<longleftrightarrow> guess ! i = secret ! i"
  using assms spec_pass2_correct_iff [of i "zip guess secret"] by (simp add: spec_simulate_def)

lemma spec_simulate_no_inflation:
  assumes "length guess = 5" "length secret = 5"
  shows "length (filter (\<lambda>i. spec_simulate guess secret ! i = PRESENT_ELSEWHERE \<and> guess ! i = L) [0..<5])
       + length (filter (\<lambda>i. guess ! i = secret ! i \<and> guess ! i = L) [0..<5]) \<le> count_list secret L"
proof -
  let ?ps = "zip guess secret"
  let ?r = "map snd (filter (\<lambda>(g, s). g \<noteq> s) ?ps)"
  let ?ms = "spec_pass2 ?ps ?r"
  have l5: "length (zip ?ms ?ps) = 5" "length ?ps = 5" using assms by simp_all
  have a: "filter (\<lambda>i. spec_simulate guess secret ! i = PRESENT_ELSEWHERE \<and> guess ! i = L) [0..<5]
         = filter (\<lambda>i. (\<lambda>(m, (a, b)). m = PRESENT_ELSEWHERE \<and> a = L) (zip ?ms ?ps ! i)) [0..<5]"
    using assms by (intro filter_cong) (auto simp: spec_simulate_def)
  have b: "filter (\<lambda>i. guess ! i = secret ! i \<and> guess ! i = L) [0..<5]
         = filter (\<lambda>i. (\<lambda>(a, b). a = b \<and> a = L) (?ps ! i)) [0..<5]"
    using assms by (intro filter_cong) auto
  have a': "length (filter (\<lambda>i. spec_simulate guess secret ! i = PRESENT_ELSEWHERE \<and> guess ! i = L) [0..<5])
         = length (filter (\<lambda>(m, (a, b)). m = PRESENT_ELSEWHERE \<and> a = L) (zip ?ms ?ps))"
    unfolding a using index_filter_length [of "\<lambda>(m, (a, b)). m = PRESENT_ELSEWHERE \<and> a = L" "zip ?ms ?ps"] l5(1)
    by simp
  have b': "length (filter (\<lambda>i. guess ! i = secret ! i \<and> guess ! i = L) [0..<5])
         = length (filter (\<lambda>(a, b). a = b \<and> a = L) ?ps)"
    unfolding b using index_filter_length [of "\<lambda>(a, b). a = b \<and> a = L" ?ps] l5(2)
    by simp
  have c: "count_list ?r L + length (filter (\<lambda>(a, b). a = b \<and> a = L) ?ps) = count_list secret L"
    using count_list_unmatched [of ?ps L] assms by simp
  from spec_pass2_no_inflation [of L ?ps ?r] a' b' c show ?thesis by linarith
qed

lemma spec_pass2_self: "spec_pass2 (zip w w) r = replicate (length w) CORRECT_POSITION"
  by (induction w) auto

text \<open>
  Claim C2. On words of length 5 the simulator returns, and its pattern is the one of the
  two-pass algorithm \<open>spec_simulate\<close>: a position is marked 2 exactly when guess and
  secret agree there; a remaining position is marked 1 only while its letter is still
  among the unconsumed secret letters, whose first instance it consumes, and 0 otherwise.
  Hence for every letter \<open>L\<close> the positions marked 1 that carry \<open>L\<close>, together with the
  exact matches on \<open>L\<close>, never outnumber the occurrences of \<open>L\<close> in the secret.
\<close>

theorem simulate_two_pass:
  "length guess = 5 \<and> length secret = 5 \<longrightarrow>
     (\<exists>p. simulate guess secret = Some p \<and> p = map mark_code (spec_simulate guess secret) \<and>
        (\<forall>i < 5. p ! i = 2 \<longleftrightarrow> guess ! i = secret ! i) \<and>
        (\<forall>L. length (filter (\<lambda>i. p ! i = 1 \<and> guess ! i = L) [0..<5])
             + length (filter (\<lambda>i. guess ! i = secret ! i \<and> guess ! i = L) [0..<5])
             \<le> count_list secret L))"
proof (intro impI)
  assume "length guess = 5 \<and> length secret = 5"
  then have l: "length guess = 5" "length secret = 5" by simp_all
  let ?p = "map mark_code (spec_simulate guess secret)"
  have 1: "simulate guess secret = Some ?p" by (rule simulate_refines [OF l])
  have 2: "\<forall>i < 5. ?p ! i = 2 \<longleftrightarrow> guess ! i = secret ! i"
    using l spec_simulate_correct_iff [OF l] by simp
  have 3: "length (filter (\<lambda>i. ?p ! i = 1 \<and> guess ! i = L) [0..<5])
             + length (filter (\<lambda>i. guess ! i = secret ! i \<and> guess ! i = L) [0..<5])
             \<le> count_list secret L" for L
  proof -
    have "filter (\<lambda>i. ?p ! i = 1 \<and> guess ! i = L) [0..<5]
        = filter (\<lambda>i. spec_simulate guess secret ! i = PRESENT_ELSEWHERE \<and> guess ! i = L) [0..<5]"
      using l by (intro filter_cong) auto
    then show ?thesis using spec_simulate_no_inflation [OF l, of L] by simp
  qed
  from 1 2 3 show "\<exists>p. simulate guess secret = Some p \<and> p = ?p \<and>
        (\<forall>i < 5. p ! i = 2 \<longleftrightarrow> guess ! i = secret ! i) \<and>
        (\<forall>L. length (filter (\<lambda>i. p ! i = 1 \<and> guess ! i = L) [0..<5])
             + length (filter (\<lambda>i. guess ! i = secret ! i \<and> guess ! i = L) [0..<5])
             \<le> count_list secret L)"
    by blast
qed

theorem simulate_two_pass_witness:
  "simulate ''aaabc'' ''baaxy'' = Some [0, 2, 2, 1, 0] \<and>
   map mark_code (spec_simulate ''aaabc'' ''baaxy'') = [0, 2, 2, 1, 0]"
proof -
  have l: "length ''aaabc'' = 5 \<and> length ''baaxy'' = 5" by simp
  from mp [OF simulate_two_pass l]
  obtain p where p: "simulate ''aaabc'' ''baaxy'' = Some p"
    "p = map mark_code (spec_simulate ''aaabc'' ''baaxy'')" by blast
  have e: "map mark_code (spec_simulate ''aaabc'' ''baaxy'') = [0, 2, 2, 1, 0]"
    by (simp add: spec_simulate_def)
  from p e show ?thesis by simp
qed

text \<open>
  Claim C7. A word of length 5 simulated against itself gives the all-correct pattern.
\<close>

theorem simulate_self:
  "length w = 5 \<Longrightarrow> simulate w w = Some [2, 2, 2, 2, 2]"
proof -
  assume l: "length w = 5"
  have "spec_simulate w w = replicate 5 CORRECT_POSITION"
    using l by (simp add: spec_simulate_def spec_pass2_self)
  then have "map mark_code (spec_simulate w w) = [2, 2, 2, 2, 2]"
    by (simp add: numeral_eq_Suc)
  with simulate_refines [OF l l] show ?thesis by simp
qed

theorem simulate_self_witness:
  "simulate ''aabca'' ''aabca'' = Some [2, 2, 2, 2, 2]"
  by (rule simulate_self) simp

lemma simulate_opera_osen: "simulate opera osen = Some [2, 0, 2, 0, 0]"
  by (simp add: simulate_def range5_def opera_def osen_def setitem_def getitem_def)

lemma feedback_digits_20200: "feedback_digits [2, 0, 2, 0, 0] = ''20200''"
  by (simp add: feedback_digits_def)

lemma filter_opera_sorted:
  "filter_words [oblik, ogon, opera, osen, ohota] opera ''20200'' = Some [osen]"
  by (simp add: filter_words_def range5_def enumerate_eq_zip upt_conv_Cons dict_get_def Counter_def
        oblik_def ogon_def opera_def osen_def ohota_def)

lemma filter_opera_listed:
  "filter_words [ogon, opera, oblik, osen, ohota] opera ''20200'' = Some [osen]"
  by (simp add: filter_words_def range5_def enumerate_eq_zip upt_conv_Cons dict_get_def Counter_def
        oblik_def ogon_def opera_def osen_def ohota_def)

text \<open>
  Claim C8. The scenario of section 8: guessing \<open>opera\<close> against the secret \<open>osen\<close>
  gives the pattern 2,0,2,0,0, typed as \<open>20200\<close>; filtering the five-word dictionary by
  that guess and pattern, in the order listed in the scenario and in sorted order, leaves
  exactly \<open>osen\<close>, so the guess is excluded and the secret is kept.
\<close>

theorem scenario_opera_osen:
  "simulate opera osen = Some [2, 0, 2, 0, 0] \<and>
   feedback_digits [2, 0, 2, 0, 0] = ''20200'' \<and>
   filter_words [ogon, opera, oblik, osen, ohota] opera ''20200'' = Some [osen] \<and>
   filter_words [oblik, ogon, opera, osen, ohota] opera ''20200'' = Some [osen]"
  by (intro conjI simulate_opera_osen feedback_digits_20200 filter_opera_listed filter_opera_sorted)

lemma feedback_digits_length [simp]: "length (feedback_digits p) = length p"
  by (simp add: feedback_digits_def)

lemma filter_words_total:
  assumes "length g = 5" "length f = 5" "\<forall>w \<in> set ws. length w = 5"
  shows "filter_words ws g f = Some (filter (spec_consistent g f) ws)"
proof -
  from filter_words_defined [of g f ws] assms
  obtain r where r: "filter_words ws g f = Some r" by blast
  from filter_words_Some [OF r] r show ?thesis by simp
qed

text \<open>
  Claim C6. For guesses \<open>A\<close> and \<open>B\<close>, a secret \<open>s\<close> and candidates all of length 5,
  both simulations return, and filtering by \<open>A\<close> with its feedback and then by \<open>B\<close> with
  its feedback returns the same list as filtering in the other order.
\<close>

theorem filter_words_commute:
  "length A = 5 \<and> length B = 5 \<and> length s = 5 \<and> (\<forall>w \<in> set S. length w = 5) \<longrightarrow>
     (\<exists>fa fb r. simulate A s = Some fa \<and> simulate B s = Some fb \<and>
        (filter_words S A (feedback_digits fa) \<bind> (\<lambda>S'. filter_words S' B (feedback_digits fb))) = Some r \<and>
        (filter_words S B (feedback_digits fb) \<bind> (\<lambda>S'. filter_words S' A (feedback_digits fa))) = Some r)"
proof (intro impI)
  assume h: "length A = 5 \<and> length B = 5 \<and> length s = 5 \<and> (\<forall>w \<in> set S. length w = 5)"
  then have lA: "length A = 5" and lB: "length B = 5" and ls: "length s = 5"
    and lS: "\<forall>w \<in> set S. length w = 5" by simp_all
  let ?fa = "map mark_code (spec_simulate A s)"
  let ?fb = "map mark_code (spec_simulate B s)"
  let ?PA = "spec_consistent A (feedback_digits ?fa)"
  let ?PB = "spec_consistent B (feedback_digits ?fb)"
  have sa: "simulate A s = Some ?fa" by (rule simulate_refines [OF lA ls])
  have sb: "simulate B s = Some ?fb" by (rule simulate_refines [OF lB ls])
  have la: "length (feedback_digits ?fa) = 5" using lA ls by simp
  have lb: "length (feedback_digits ?fb) = 5" using lB ls by simp
  have SA: "\<forall>w \<in> set (filter ?PA S). length w = 5" using lS by simp
  have SB: "\<forall>w \<in> set (filter ?PB S). length w = 5" using lS by simp
  have ab: "(filter_words S A (feedback_digits ?fa) \<bind> (\<lambda>S'. filter_words S' B (feedback_digits ?fb)))
        = Some (filter ?PB (filter ?PA S))"
    using filter_words_total [OF lA la lS] filter_words_total [OF lB lb SA] by simp
  have ba: "(filter_words S B (feedback_digits ?fb) \<bind> (\<lambda>S'. filter_words S' A (feedback_digits ?fa)))
        = Some (filter ?PA (filter ?PB S))"
    using filter_words_total [OF lB lb lS] filter_words_total [OF lA la SB] by simp
  have comm: "filter ?PA (filter ?PB S) = filter ?PB (filter ?PA S)"
    by (simp add: conj_commute)
  from sa sb ab ba comm
  show "\<exists>fa fb r. simulate A s = Some fa \<and> simulate B s = Some fb \<and>
        (filter_words S A (feedback_digits fa) \<bind> (\<lambda>S'. filter_words S' B (feedback_digits fb))) = Some r \<and>
        (filter_words S B (feedback_digits fb) \<bind> (\<lambda>S'. filter_words S' A (feedback_digits fa))) = Some r"
    by metis
qed

theorem filter_words_commute_witness:
  "\<exists>fa fb r. simulate ''abcde'' ''aabbc'' = Some fa \<and> simulate ''bbbaa'' ''aabbc'' = Some fb \<and>
     (filter_words [''aabbc'', ''abcde'', ''ccccc''] ''abcde'' (feedback_digits fa)
        \<bind> (\<lambda>S'. filter_words S' ''bbbaa'' (feedback_digits fb))) = Some r \<and>
     (filter_words [''aabbc'', ''abcde'', ''ccccc''] ''bbbaa'' (feedback_digits fb)
        \<bind> (\<lambda>S'. filter_words S' ''abcde'' (feedback_digits fa))) = Some r"
proof -
  have h: "length ''abcde'' = 5 \<and> length ''bbbaa'' = 5 \<and> length ''aabbc'' = 5 \<and>
    (\<forall>w \<in> set [''aabbc'', ''abcde'', ''ccccc'']. length w = 5)" by simp
  show ?thesis by (rule mp [OF filter_words_commute h])
qed

end
